theory Spec2Isabelle
  imports
    Main
    "HOL-Library.Char_ord"
    "HOL-Library.List_Lexorder"
    "HOL-Library.Product_Lexorder"
    "HOL-Library.Multiset"
begin

section \<open>The swap-log decoder (\<open>decode_swap_log\<close>, etl\_pipeline.py lines 9 to 23)\<close>

text \<open>
  Python raises; the model returns the exception as a value. \<open>ValueError\<close> is what
  \<open>bytes.fromhex\<close> and a column assignment of the wrong length raise (the spec calls the
  first one MalformedPayload), \<open>ConfigurationError\<close> stands for the two exceptions of the
  credential checks, \<open>ClientError\<close> for an exception of the BigQuery client's
  constructor, which the source does not catch.
\<close>

datatype error = ValueError | ConfigurationError | ClientError

text \<open>
  A Python \<open>str\<close> is modelled as a \<open>string\<close>, one \<open>char\<close> per code point (code points
  below 256). \<open>bytes.fromhex\<close> (CPython 3.7 and later) skips ASCII whitespace before each
  pair of hex digits, and raises \<open>ValueError\<close> on any other character and on a pair whose
  second digit is missing. Bytes are numbers below 256.
\<close>

definition py_isspace :: "char \<Rightarrow> bool" where
  "py_isspace c = (of_char c \<in> {9, 10, 11, 12, 13, 32 :: nat})"

definition digit_value :: "char \<Rightarrow> nat option" where
  "digit_value c =
     (let n = (of_char c :: nat)
      in if 48 \<le> n \<and> n \<le> 57 then Some (n - 48)
         else if 97 \<le> n \<and> n \<le> 102 then Some (n - 87)
         else if 65 \<le> n \<and> n \<le> 70 then Some (n - 55)
         else None)"

fun fromhex :: "string \<Rightarrow> error + nat list" where
  "fromhex [] = Inr []"
| "fromhex (c # cs) =
     (if py_isspace c then fromhex cs
      else case digit_value c of
        None \<Rightarrow> Inl ValueError
      | Some hi \<Rightarrow>
          (case cs of
             [] \<Rightarrow> Inl ValueError
           | d # ds \<Rightarrow>
               (case digit_value d of
                  None \<Rightarrow> Inl ValueError
                | Some lo \<Rightarrow>
                    (case fromhex ds of
                       Inl e \<Rightarrow> Inl e
                     | Inr bs \<Rightarrow> Inr ((hi * 16 + lo) # bs)))))"

text \<open>
  \<open>int.from_bytes(b, byteorder='big', signed=True)\<close>: the big-endian value of the bytes,
  less \<open>2 ^ (8 * len(b))\<close> when the top bit of the first byte is set; the empty byte
  string gives 0.
\<close>

definition from_bytes :: "nat list \<Rightarrow> int" where
  "from_bytes bs =
     (let u = foldl (\<lambda>a b. a * 256 + int b) 0 bs
      in if bs \<noteq> [] \<and> 128 \<le> hd bs then u - 2 ^ (8 * length bs) else u)"

definition strip_marker :: "string \<Rightarrow> string" where
  "strip_marker log_data = (if take 2 log_data = ''0x'' then drop 2 log_data else log_data)"

definition decode_swap_log :: "string \<Rightarrow> error + (int \<times> int)" where
  "decode_swap_log log_data =
     (let log_data = strip_marker log_data;
          amount0_hex = take 64 log_data;
          amount1_hex = take 64 (drop 64 log_data)
      in case fromhex amount0_hex of
           Inl e \<Rightarrow> Inl e
         | Inr b0 \<Rightarrow>
             (case fromhex amount1_hex of
                Inl e \<Rightarrow> Inl e
              | Inr b1 \<Rightarrow> Inr (from_bytes b0, from_bytes b1)))"

text \<open>
  The encoder of the round-trip property is not part of the repository. This one follows
  the spec's words: each amount is written as 64 hex digits, big-endian, of its
  two's-complement value (the amount modulo \<open>2 ^ 256\<close>), the two segments one after the
  other. The marker \<open>0x\<close> in front and the case of the letters are the caller's choice.
\<close>

definition hex_digit :: "bool \<Rightarrow> nat \<Rightarrow> char" where
  "hex_digit upper d = (if upper then ''0123456789ABCDEF'' else ''0123456789abcdef'') ! d"

fun to_hex :: "bool \<Rightarrow> nat \<Rightarrow> int \<Rightarrow> string" where
  "to_hex upper 0 v = []"
| "to_hex upper (Suc n) v = to_hex upper n (v div 16) @ [hex_digit upper (nat (v mod 16))]"

definition decode_to_hex :: "bool \<Rightarrow> bool \<Rightarrow> int \<Rightarrow> int \<Rightarrow> string" where
  "decode_to_hex marker upper amount0 amount1 =
     (if marker then ''0x'' else []) @
     to_hex upper 64 (amount0 mod 2 ^ 256) @ to_hex upper 64 (amount1 mod 2 ^ 256)"

text \<open>The bytes that a run of hex digits stands for, used to state what \<open>fromhex\<close> returns.\<close>

fun to_bytes :: "nat \<Rightarrow> int \<Rightarrow> nat list" where
  "to_bytes 0 v = []"
| "to_bytes (Suc n) v = to_bytes n (v div 256) @ [nat (v mod 256)]"

definition is_hex :: "char \<Rightarrow> bool" where
  "is_hex c = (digit_value c \<noteq> None)"

section \<open>The pipeline (\<open>get_crypto_data\<close>, etl\_pipeline.py lines 25 to 132)\<close>

subsection \<open>Rows\<close>

text \<open>
  A row of the data frame is a record, and each stage that adds columns extends it. The
  column \<open>value\<close> of the query is the field \<open>tx_value\<close>. A timestamp is a number of
  nanoseconds, as in a pandas \<open>datetime64\<close> column. The column \<open>value_eth\<close> is a float
  that no later step reads; it is left out.
\<close>

record swap_event =
  sender :: string
  pool_address :: string
  data :: string
  tx_value :: string
  block_timestamp :: int

record decoded_event = swap_event +
  amount0 :: int
  amount1 :: int

record classified_event = decoded_event +
  time_diff :: "int option"
  is_bot :: bool

record annotated_event = classified_event +
  AI_Narrative :: string

subsection \<open>Decoding every row (line 86)\<close>

definition decode_row :: "swap_event \<Rightarrow> error + decoded_event" where
  "decode_row r =
     (case decode_swap_log (data r) of
        Inl e \<Rightarrow> Inl e
      | Inr (a0, a1) \<Rightarrow>
          Inr \<lparr>sender = sender r, pool_address = pool_address r, data = data r,
               tx_value = tx_value r, block_timestamp = block_timestamp r,
               amount0 = a0, amount1 = a1\<rparr>)"

text \<open>\<open>apply\<close> decodes the rows in order; the first exception ends the run.\<close>

fun decode_rows :: "swap_event list \<Rightarrow> error + decoded_event list" where
  "decode_rows [] = Inr []"
| "decode_rows (r # rs) =
     (case decode_row r of
        Inl e \<Rightarrow> Inl e
      | Inr d \<Rightarrow> (case decode_rows rs of Inl e \<Rightarrow> Inl e | Inr ds \<Rightarrow> Inr (d # ds)))"

subsection \<open>Bot detection (lines 89 to 94)\<close>

text \<open>
  \<open>sort_values(by=['sender', 'block_timestamp'])\<close> is a stable sort on the pair of keys;
  strings compare by code point.
\<close>

definition sort_by_sender_timestamp :: "decoded_event list \<Rightarrow> decoded_event list" where
  "sort_by_sender_timestamp df = sort_key (\<lambda>r. (sender r, block_timestamp r)) df"

text \<open>
  \<open>groupby('sender')['block_timestamp'].diff()\<close>: each row's timestamp less the timestamp
  of the row before it in its own group, and NaT (\<open>None\<close>) for the first row of a group.
  \<open>seen\<close> holds the rows already passed, the latest first.
\<close>

fun groupby_diff :: "decoded_event list \<Rightarrow> decoded_event list \<Rightarrow> int option list" where
  "groupby_diff seen [] = []"
| "groupby_diff seen (r # rs) =
     (case find (\<lambda>q. sender q = sender r) seen of
        None \<Rightarrow> None
      | Some p \<Rightarrow> Some (block_timestamp r - block_timestamp p))
     # groupby_diff (r # seen) rs"

text \<open>\<open>pd.Timedelta(minutes=5)\<close>, in nanoseconds.\<close>

definition threshold :: int where
  "threshold = 5 * 60 * 1000000000"

text \<open>A comparison with NaT is false.\<close>

definition within_threshold :: "int option \<Rightarrow> bool" where
  "within_threshold d = (case d of None \<Rightarrow> False | Some t \<Rightarrow> t \<le> threshold)"

definition bot_senders :: "decoded_event list \<Rightarrow> int option list \<Rightarrow> string list" where
  "bot_senders df diffs =
     remdups (map (\<lambda>(r, d). sender r) (filter (\<lambda>(r, d). within_threshold d) (zip df diffs)))"

definition classify_row :: "string list \<Rightarrow> decoded_event \<times> int option \<Rightarrow> classified_event" where
  "classify_row bots = (\<lambda>(r, d).
     \<lparr>sender = sender r, pool_address = pool_address r, data = data r,
      tx_value = tx_value r, block_timestamp = block_timestamp r,
      amount0 = amount0 r, amount1 = amount1 r,
      time_diff = d, is_bot = (sender r \<in> set bots)\<rparr>)"

definition classify :: "decoded_event list \<Rightarrow> classified_event list" where
  "classify df =
     (let df = sort_by_sender_timestamp df;
          diffs = groupby_diff [] df;
          bots = bot_senders df diffs
      in map (classify_row bots) (zip df diffs))"

subsection \<open>The display set (line 97)\<close>

text \<open>
  \<open>sort_values(by='block_timestamp', ascending=False)\<close> sorts the reversed column
  ascending and reverses the result. The order that pandas gives to rows of equal
  timestamp is that of numpy's quicksort; the model takes the stable one.
\<close>

definition sort_descending :: "classified_event list \<Rightarrow> classified_event list" where
  "sort_descending df = rev (sort_key block_timestamp (rev df))"

definition display_set :: "classified_event list \<Rightarrow> classified_event list" where
  "display_set df = take 20 (sort_descending df)"

subsection \<open>The prompt (lines 102 to 116)\<close>

function dec_digits :: "int \<Rightarrow> string" where
  "dec_digits n =
     (if n < 10 then [''0123456789'' ! nat n]
      else dec_digits (n div 10) @ [''0123456789'' ! nat (n mod 10)])"
  by pat_completeness auto
termination
  by (relation "measure nat") auto

function comma_group :: "string \<Rightarrow> string" where
  "comma_group ds =
     (if length ds \<le> 3 then ds
      else comma_group (take (length ds - 3) ds) @ '','' @ drop (length ds - 3) ds)"
  by pat_completeness auto
termination
  by (relation "measure length") auto

text \<open>The format \<open>{n:,}\<close> of an integer.\<close>

definition format_comma :: "int \<Rightarrow> string" where
  "format_comma n =
     (if n < 0 then ''-'' @ comma_group (dec_digits (- n)) else comma_group (dec_digits n))"

definition action :: "classified_event \<Rightarrow> string" where
  "action row =
     (if amount0 row < 0
      then ''user bought '' @ format_comma (- amount0 row) @ '' of token0 and sold '' @
           format_comma (amount1 row) @ '' of token1''
      else ''user sold '' @ format_comma (amount0 row) @ '' of token0 and bought '' @
           format_comma (- amount1 row) @ '' of token1'')"

definition bot_note :: "classified_event \<Rightarrow> string" where
  "bot_note row =
     (if is_bot row then ''this wallet is flagged as a bot due to high-frequency trading.''
      else [])"

definition indent :: string where
  "indent = replicate 8 CHR '' ''"

definition build_prompt :: "classified_event \<Rightarrow> string" where
  "build_prompt row =
     ''you are a financial analyst. summarize this trade in 1 sentence.'' @ [CHR 0x0A] @
     indent @ ''focus on the decoded action: '' @ [CHR 0x22] @ action row @ [CHR 0x22] @
       ''. '' @ [CHR 0x0A] @
     indent @ ''instruction: large numbers (billions+) usually imply meme coins. '' @
       ''small numbers (0-100) often imply major assets like eth/wbtc.'' @ [CHR 0x0A] @
     indent @ bot_note row @ [CHR 0x0A] @
     indent @ ''end with exactly one tag: [bullish], [bearish], or [neutral].'' @ [CHR 0x0A] @
     indent"

subsection \<open>The narrative service and the annotation loop (lines 99 to 131)\<close>

text \<open>
  One call of \<open>model.generate_content(prompt)\<close> followed by \<open>response.text\<close> ends in one
  of four ways: a text, the exception \<open>NotFound\<close>, the exception \<open>TooManyRequests\<close> (the
  quota error, with its subclass \<open>ResourceExhausted\<close>), or any other \<open>Exception\<close>. The
  service is a function of its own state and the prompt.
\<close>

datatype gen_result = Text string | RaiseNotFound | RaiseTooManyRequests | RaiseOther

type_synonym 's service = "'s \<Rightarrow> string \<Rightarrow> gen_result \<times> 's"

text \<open>\<open>str.strip()\<close>: the whitespace of Python among the code points below 256.\<close>

definition py_str_isspace :: "char \<Rightarrow> bool" where
  "py_str_isspace c = (of_char c \<in> {9, 10, 11, 12, 13, 28, 29, 30, 31, 32, 133, 160 :: nat})"

definition strip :: "string \<Rightarrow> string" where
  "strip t = rev (dropWhile py_str_isspace (rev (dropWhile py_str_isspace t)))"

definition analysis_unavailable :: string where
  "analysis_unavailable = ''analysis unavailable (api limit). [neutral]''"

definition analysis_failed :: string where
  "analysis_failed = ''analysis failed. [neutral]''"

definition analysis_skipped :: string where
  "analysis_skipped = ''analysis skipped to save api credits. [neutral]''"

text \<open>The \<open>try\<close> of lines 118 to 125: what is appended to \<open>ai_narratives\<close>.\<close>

fun narrative_of :: "gen_result \<Rightarrow> string" where
  "narrative_of (Text t) = strip t"
| "narrative_of RaiseNotFound = analysis_unavailable"
| "narrative_of RaiseTooManyRequests = analysis_unavailable"
| "narrative_of RaiseOther = analysis_failed"

text \<open>
  The loop over \<open>df.head(10)\<close>. It returns the narratives appended, the prompts sent to the
  service in order (one per call), and the state of the service after the last call.
\<close>

fun annotate :: "'s service \<Rightarrow> 's \<Rightarrow> classified_event list \<Rightarrow> string list \<times> string list \<times> 's" where
  "annotate svc s [] = ([], [], s)"
| "annotate svc s (row # rows) =
     (let prompt = build_prompt row;
          (res, s1) = svc s prompt;
          (ai_narratives, calls, s2) = annotate svc s1 rows
      in (narrative_of res # ai_narratives, prompt # calls, s2))"

text \<open>The second loop runs \<open>len(df) - 10\<close> times, and not at all when that is negative.\<close>

definition skip_remaining :: "classified_event list \<Rightarrow> string list" where
  "skip_remaining df = replicate (nat (int (length df) - 10)) analysis_skipped"

definition with_narrative :: "classified_event \<Rightarrow> string \<Rightarrow> annotated_event" where
  "with_narrative r n =
     \<lparr>sender = sender r, pool_address = pool_address r, data = data r,
      tx_value = tx_value r, block_timestamp = block_timestamp r,
      amount0 = amount0 r, amount1 = amount1 r,
      time_diff = time_diff r, is_bot = is_bot r, AI_Narrative = n\<rparr>"

text \<open>Assigning a column of another length than the frame raises \<open>ValueError\<close>.\<close>

definition assign_narratives ::
  "classified_event list \<Rightarrow> string list \<Rightarrow> error + annotated_event list" where
  "assign_narratives df ai_narratives =
     (if length ai_narratives \<noteq> length df then Inl ValueError
      else Inr (map (\<lambda>(r, n). with_narrative r n) (zip df ai_narratives)))"

subsection \<open>Configuration and the event source (lines 28 to 83)\<close>

text \<open>
  The environment variables the function reads, and the key of the Streamlit secrets that
  it falls back to. \<open>not os.getenv(...)\<close> holds for a variable that is unset or empty.
\<close>

record env =
  GCP_PROJECT :: "string option"
  GOOGLE_APPLICATION_CREDENTIALS :: "string option"
  GOOGLE_API_KEY :: "string option"
  secrets_GOOGLE_API_KEY :: "string option"

definition unset :: "string option \<Rightarrow> bool" where
  "unset v = (case v of None \<Rightarrow> True | Some t \<Rightarrow> t = [])"

definition configure :: "env \<Rightarrow> error + unit" where
  "configure e =
     (if unset (GOOGLE_APPLICATION_CREDENTIALS e) then Inl ConfigurationError
      else if \<not> unset (GOOGLE_API_KEY e) then Inr ()
      else case secrets_GOOGLE_API_KEY e of
             None \<Rightarrow> Inl ConfigurationError
           | Some k \<Rightarrow> Inr ())"

text \<open>
  What the event source does in one run: the client cannot be built (the exception is not
  caught), the query or the download raises (caught at line 78), or the rows arrive.
\<close>

datatype source = ClientFailed | QueryFailed | Rows "swap_event list"

text \<open>
  A run returns the frame, the prompts sent to the narrative service, and the state of the
  service. The prints are not modelled.
\<close>

definition get_crypto_data ::
  "env \<Rightarrow> source \<Rightarrow> 's service \<Rightarrow> 's \<Rightarrow> error + (annotated_event list \<times> string list \<times> 's)" where
  "get_crypto_data e src svc s =
     (case configure e of
        Inl err \<Rightarrow> Inl err
      | Inr _ \<Rightarrow>
          (case src of
             ClientFailed \<Rightarrow> Inl ClientError
           | QueryFailed \<Rightarrow> Inr ([], [], s)
           | Rows rows \<Rightarrow>
               (if rows = [] then Inr ([], [], s)
                else (case decode_rows rows of
                        Inl err \<Rightarrow> Inl err
                      | Inr df \<Rightarrow>
                          (let df = classify df;
                               df = display_set df;
                               (ai_narratives, calls, s1) = annotate svc s (take 10 df);
                               ai_narratives = ai_narratives @ skip_remaining df
                           in (case assign_narratives df ai_narratives of
                                 Inl err \<Rightarrow> Inl err
                               | Inr res \<Rightarrow> Inr (res, calls, s1)))))))"

section \<open>The classifier as the spec states it\<close>

text \<open>
  The spec sorts the timestamps of one actor's events in ascending order and looks for two
  consecutive ones that are at most the threshold apart.
\<close>

fun close_pair :: "int list \<Rightarrow> bool" where
  "close_pair (x # y # zs) = (y - x \<le> threshold \<or> close_pair (y # zs))"
| "close_pair zs = False"

definition actor_timestamps :: "string \<Rightarrow> decoded_event list \<Rightarrow> int list" where
  "actor_timestamps a df = sort (map block_timestamp (filter (\<lambda>r. sender r = a) df))"

text \<open>The latest row of an actor among the rows already passed, as a list of at most one row.\<close>

definition last_seen :: "string \<Rightarrow> decoded_event list \<Rightarrow> decoded_event list" where
  "last_seen a seen = (case find (\<lambda>q. sender q = a) seen of None \<Rightarrow> [] | Some p \<Rightarrow> [p])"

text \<open>Rows and times for the examples: a decoded row of a given sender and timestamp.\<close>

definition decoded_sample :: "string \<Rightarrow> int \<Rightarrow> decoded_event" where
  "decoded_sample a t =
     \<lparr>sender = a, pool_address = ''0xpool'', data = ''0x'', tx_value = ''0'',
      block_timestamp = t, amount0 = 0, amount1 = 0\<rparr>"

definition minutes :: "int \<Rightarrow> int" where
  "minutes m = m * 60 * 1000000000"

section \<open>What a run displays and what the service answers\<close>

text \<open>
  The answers of the service to a list of prompts sent one after the other, the display
  set of a run (lines 86 to 97 applied to the fetched rows), and a returned row without
  its narrative column.
\<close>

fun responses :: "'s service \<Rightarrow> 's \<Rightarrow> string list \<Rightarrow> gen_result list" where
  "responses svc s [] = []"
| "responses svc s (p # ps) = (let (res, s1) = svc s p in res # responses svc s1 ps)"

definition displayed :: "swap_event list \<Rightarrow> classified_event list" where
  "displayed rows = (case decode_rows rows of Inl err \<Rightarrow> [] | Inr df \<Rightarrow> display_set (classify df))"

definition without_narrative :: "annotated_event \<Rightarrow> classified_event" where
  "without_narrative r =
     \<lparr>sender = sender r, pool_address = pool_address r, data = data r,
      tx_value = tx_value r, block_timestamp = block_timestamp r,
      amount0 = amount0 r, amount1 = amount1 r,
      time_diff = time_diff r, is_bot = is_bot r\<rparr>"

text \<open>
  For the examples: an environment with credentials and a key, an event with a 128-digit
  payload, a list of events of one sender that are ten minutes apart, a service whose
  third call raises \<open>TooManyRequests\<close>, whose fourth raises \<open>NotFound\<close> and whose fifth
  raises another exception, and a service that always raises \<open>NotFound\<close>.
\<close>

definition sample_env :: env where
  "sample_env =
     \<lparr>GCP_PROJECT = Some ''project'', GOOGLE_APPLICATION_CREDENTIALS = Some ''key.json'',
      GOOGLE_API_KEY = Some ''key'', secrets_GOOGLE_API_KEY = None\<rparr>"

definition sample_event :: "string \<Rightarrow> int \<Rightarrow> swap_event" where
  "sample_event a t =
     \<lparr>sender = a, pool_address = ''0xpool'', data = decode_to_hex True False (- 1500) 2500000,
      tx_value = ''0'', block_timestamp = t\<rparr>"

definition sample_rows :: "nat \<Rightarrow> swap_event list" where
  "sample_rows n = map (\<lambda>i. sample_event ''0xA'' (minutes (10 * int i))) [0..<n]"

definition sample_service :: "nat service" where
  "sample_service n prompt =
     (if n = 2 then RaiseTooManyRequests
      else if n = 3 then RaiseNotFound
      else if n = 4 then RaiseOther
      else Text '' user bought token0. [bullish] '', Suc n)"

definition not_found_service :: "unit service" where
  "not_found_service u prompt = (RaiseNotFound, u)"

section \<open>Properties of the decoder\<close>

subsection \<open>Hex digits and bytes\<close>

lemma below_16_cases:
  "d < 16 \<Longrightarrow> d \<in> {0, 1, 2, 3, 4, 5, 6, 7, 8, 9, 10, 11, 12, 13, 14, 15 :: nat}"
  by (simp only: insert_iff empty_iff) arith

lemma digit_value_hex_digit: "d < 16 \<Longrightarrow> digit_value (hex_digit up d) = Some d"
  using below_16_cases [of d] by (auto simp add: digit_value_def hex_digit_def)

lemma not_space_hex_digit: "d < 16 \<Longrightarrow> \<not> py_isspace (hex_digit up d)"
  using below_16_cases [of d] by (auto simp add: py_isspace_def hex_digit_def)

lemma hex_digit_not_x: "d < 16 \<Longrightarrow> hex_digit up d \<noteq> CHR ''x''"
  using below_16_cases [of d] by (auto simp add: hex_digit_def)

lemma length_to_hex: "length (to_hex up n v) = n"
  by (induction n arbitrary: v) auto

lemma fromhex_two_digits:
  "hi < 16 \<Longrightarrow> lo < 16 \<Longrightarrow>
   fromhex (hex_digit up hi # hex_digit up lo # rest) =
     (case fromhex rest of Inl e \<Rightarrow> Inl e | Inr bs \<Rightarrow> Inr ((hi * 16 + lo) # bs))"
  by (simp add: digit_value_hex_digit not_space_hex_digit)

lemma to_hex_Suc_Suc:
  "to_hex up (Suc (Suc n)) v =
     to_hex up n (v div 256) @ [hex_digit up (nat (v div 16 mod 16)), hex_digit up (nat (v mod 16))]"
proof -
  have "v div 16 div 16 = v div 256"
    using zdiv_zmult2_eq [of 16 v 16] by simp
  then show ?thesis by simp
qed

lemma byte_of_nibbles:
  "nat (v div 16 mod 16) * 16 + nat (v mod 16) = nat (v mod 256)"
proof -
  have "v mod 256 = 16 * (v div 16 mod 16) + v mod 16"
    using zmod_zmult2_eq [of 16 v 16] by simp
  moreover have "0 \<le> v div 16 mod 16" "0 \<le> v mod 16" by simp_all
  ultimately show ?thesis by (simp add: nat_add_distrib nat_mult_distrib)
qed

lemma fromhex_to_hex_append:
  "fromhex (to_hex up (2 * n) v @ rest) =
     (case fromhex rest of Inl e \<Rightarrow> Inl e | Inr bs \<Rightarrow> Inr (to_bytes n v @ bs))"
proof (induction n arbitrary: v rest)
  case 0
  show ?case by (simp split: sum.splits)
next
  case (Suc n)
  have nib: "nat (v div 16 mod 16) < 16" "nat (v mod 16) < 16" by simp_all
  have "fromhex (to_hex up (2 * Suc n) v @ rest) =
        fromhex (to_hex up (2 * n) (v div 256) @
          (hex_digit up (nat (v div 16 mod 16)) # hex_digit up (nat (v mod 16)) # rest))"
    by (simp only: mult_Suc_right add_2_eq_Suc to_hex_Suc_Suc append_assoc append.simps)
  also have "\<dots> = (case fromhex rest of Inl e \<Rightarrow> Inl e
                   | Inr bs \<Rightarrow> Inr (to_bytes (Suc n) v @ bs))"
    by (simp add: Suc.IH fromhex_two_digits [OF nib] byte_of_nibbles
          del: fromhex.simps split: sum.splits)
  finally show ?case .
qed


lemma length_to_bytes: "length (to_bytes n v) = n"
  by (induction n arbitrary: v) auto

lemma foldl_to_bytes:
  "foldl (\<lambda>a b. a * 256 + int b) acc (to_bytes n v) = acc * 256 ^ n + v mod 256 ^ n"
proof (induction n arbitrary: v)
  case 0
  show ?case by simp
next
  case (Suc n)
  have split: "v mod (256 * 256 ^ n) = 256 * (v div 256 mod 256 ^ n) + v mod 256"
    by (rule zmod_zmult2_eq) simp
  have "foldl (\<lambda>a b. a * 256 + int b) acc (to_bytes (Suc n) v) =
        (acc * 256 ^ n + v div 256 mod 256 ^ n) * 256 + v mod 256"
    by (simp add: Suc.IH)
  also have "\<dots> = acc * 256 ^ Suc n + v mod 256 ^ Suc n"
    using split by (simp add: algebra_simps)
  finally show ?case .
qed

lemma hd_to_bytes: "0 < n \<Longrightarrow> hd (to_bytes n v) = nat (v div 256 ^ (n - 1) mod 256)"
proof (induction n arbitrary: v)
  case 0
  then show ?case by simp
next
  case (Suc n)
  show ?case
  proof (cases n)
    case 0
    then show ?thesis by simp
  next
    case (Suc m)
    then have ne: "to_bytes n (v div 256) \<noteq> []"
      using length_to_bytes [of n "v div 256"] by auto
    have "v div 256 div 256 ^ (n - 1) = v div (256 * 256 ^ (n - 1))"
      by (rule zdiv_zmult2_eq [symmetric]) simp
    also have "256 * 256 ^ (n - 1) = (256::int) ^ n"
      using Suc by simp
    finally have eq: "v div 256 div 256 ^ (n - 1) = v div 256 ^ n" .
    have "hd (to_bytes (Suc n) v) = hd (to_bytes n (v div 256))"
      using ne by simp
    also have "\<dots> = nat (v div 256 div 256 ^ (n - 1) mod 256)"
      using Suc.IH [of "v div 256"] Suc by simp
    finally show ?thesis using eq by simp
  qed
qed

lemma from_bytes_to_bytes_32:
  assumes "- (2 ^ 255) \<le> a" and "a < 2 ^ 255"
  shows "from_bytes (to_bytes 32 (a mod 2 ^ 256)) = a"
proof -
  define v where "v = a mod 2 ^ 256"
  have ne: "to_bytes 32 v \<noteq> []"
    using length_to_bytes [of 32 v] by auto
  have range: "0 \<le> v" "v \<le> 2 ^ 256 - 1"
    by (simp_all add: v_def)
  have "v mod 256 ^ 32 = v"
    using range by (intro mod_pos_pos_trivial) simp_all
  then have u: "foldl (\<lambda>a b. a * 256 + int b) 0 (to_bytes 32 v) = v"
    by (simp add: foldl_to_bytes)
  have "v div 2 ^ 248 \<le> (2 ^ 256 - 1) div 2 ^ 248"
    using range(2) by (rule zdiv_mono1) simp
  then have top: "v div 2 ^ 248 < 256" by simp
  have "0 \<le> v div 2 ^ 248"
    using range(1) by (simp add: pos_imp_zdiv_nonneg_iff)
  then have "v div 256 ^ 31 mod 256 = v div 2 ^ 248"
    using top by simp
  then have h: "hd (to_bytes 32 v) = nat (v div 2 ^ 248)"
    using hd_to_bytes [of 32 v] by simp
  have "from_bytes (to_bytes 32 v) = a"
  proof (cases "a < 0")
    case True
    have "(a + 2 ^ 256) mod 2 ^ 256 = a + 2 ^ 256"
      using assms True by (intro mod_pos_pos_trivial) simp_all
    then have v: "v = a + 2 ^ 256" by (simp add: v_def)
    have "2 ^ 255 \<le> v" using assms v by simp
    then have "2 ^ 255 div 2 ^ 248 \<le> v div (2 ^ 248 :: int)"
      by (rule zdiv_mono1) simp
    then have "128 \<le> nat (v div 2 ^ 248)" by simp
    then have "from_bytes (to_bytes 32 v) = v - 2 ^ 256"
      using ne u h by (simp add: from_bytes_def length_to_bytes)
    then show ?thesis using v by simp
  next
    case False
    have "a mod 2 ^ 256 = a"
      using assms False by (intro mod_pos_pos_trivial) simp_all
    then have v: "v = a" by (simp add: v_def)
    have "v \<le> 2 ^ 255 - 1" using assms v by simp
    then have "v div 2 ^ 248 \<le> (2 ^ 255 - 1) div 2 ^ 248"
      by (rule zdiv_mono1) simp
    then have "\<not> 128 \<le> nat (v div 2 ^ 248)" by simp
    then have "from_bytes (to_bytes 32 v) = v"
      using ne u h by (simp add: from_bytes_def)
    then show ?thesis using v by simp
  qed
  then show ?thesis by (simp only: v_def)
qed

lemma fromhex_to_hex:
  "fromhex (to_hex up (2 * n) v) = Inr (to_bytes n v)"
  using fromhex_to_hex_append [of up n v "[]"] by simp

lemma to_hex_no_x: "CHR ''x'' \<notin> set (to_hex up n v)"
proof (induction n arbitrary: v)
  case 0
  show ?case by simp
next
  case (Suc n)
  have "nat (v mod 16) < 16" by simp
  then have "hex_digit up (nat (v mod 16)) \<noteq> CHR ''x''"
    by (rule hex_digit_not_x)
  then show ?case using Suc.IH [of "v div 16"] by auto
qed

lemma marker_needs_x: "take 2 xs = ''0x'' \<Longrightarrow> CHR ''x'' \<in> set xs"
proof -
  assume "take 2 xs = ''0x''"
  then have "CHR ''x'' \<in> set (take 2 xs)" by simp
  then show ?thesis by (rule in_set_takeD)
qed

lemma strip_marker_decode_to_hex:
  "strip_marker (decode_to_hex marker up a0 a1) =
     to_hex up 64 (a0 mod 2 ^ 256) @ to_hex up 64 (a1 mod 2 ^ 256)"
proof (cases marker)
  case True
  then show ?thesis by (simp add: strip_marker_def decode_to_hex_def)
next
  case False
  let ?p = "to_hex up 64 (a0 mod 2 ^ 256) @ to_hex up 64 (a1 mod 2 ^ 256)"
  have "CHR ''x'' \<notin> set ?p"
    using to_hex_no_x [of up 64] by simp
  then have "take 2 ?p \<noteq> ''0x''"
    using marker_needs_x [of ?p] by blast
  then show ?thesis using False
    by (simp only: strip_marker_def decode_to_hex_def if_False append_Nil)
qed

lemma decode_segments:
  "decode_swap_log (decode_to_hex marker up a0 a1) =
     Inr (from_bytes (to_bytes 32 (a0 mod 2 ^ 256)), from_bytes (to_bytes 32 (a1 mod 2 ^ 256)))"
proof -
  have hex: "fromhex (to_hex up 64 v) = Inr (to_bytes 32 v)" for v
    using fromhex_to_hex [of up 32 v] by simp
  have len: "length (to_hex up 64 v) = 64" for v
    by (rule length_to_hex)
  show ?thesis
    unfolding decode_swap_log_def strip_marker_decode_to_hex Let_def
    by (simp add: hex len del: to_hex.simps)
qed

subsection \<open>What \<open>fromhex\<close> accepts\<close>

lemma fromhex_error: "fromhex xs = Inl e \<Longrightarrow> e = ValueError"
  by (induction xs arbitrary: e rule: fromhex.induct)
     (auto split: if_splits option.splits list.splits sum.splits)

lemma fromhex_accepts:
  "fromhex xs = Inr bs \<Longrightarrow> c \<in> set xs \<Longrightarrow> is_hex c \<or> py_isspace c"
  by (induction xs arbitrary: bs rule: fromhex.induct)
     (auto simp add: is_hex_def split: if_splits option.splits list.splits sum.splits)

lemma fromhex_rejects:
  assumes "c \<in> set xs" and "\<not> is_hex c" and "\<not> py_isspace c"
  shows "fromhex xs = Inl ValueError"
proof (cases "fromhex xs")
  case (Inl e)
  then show ?thesis using fromhex_error by simp
next
  case (Inr bs)
  then show ?thesis using fromhex_accepts [OF Inr assms(1)] assms(2,3) by simp
qed

lemma is_hex_not_space: "is_hex c \<Longrightarrow> \<not> py_isspace c"
  by (auto simp add: is_hex_def digit_value_def py_isspace_def Let_def split: if_splits)

lemma fromhex_hex_only:
  "\<forall>c \<in> set xs. is_hex c \<Longrightarrow>
   (if odd (length xs) then fromhex xs = Inl ValueError else (\<exists>bs. fromhex xs = Inr bs))"
proof (induction xs rule: fromhex.induct)
  case 1
  show ?case by simp
next
  case (2 c cs)
  have c: "\<not> py_isspace c" "digit_value c \<noteq> None"
    using 2(3) is_hex_not_space [of c] by (simp_all add: is_hex_def)
  then obtain hi where hi: "digit_value c = Some hi" by auto
  show ?case
  proof (cases cs)
    case Nil
    then show ?thesis using c hi by simp
  next
    case (Cons d ds)
    then have "digit_value d \<noteq> None" using 2(3) by (simp add: is_hex_def)
    then obtain lo where lo: "digit_value d = Some lo" by auto
    have "if odd (length ds) then fromhex ds = Inl ValueError else (\<exists>bs. fromhex ds = Inr bs)"
      using 2(2) [OF c(1) hi Cons lo] 2(3) Cons by simp
    then show ?thesis using c hi lo Cons by (auto split: if_splits)
  qed
qed

lemma decode_swap_log_error: "decode_swap_log s = Inl e \<Longrightarrow> e = ValueError"
  by (auto simp add: decode_swap_log_def Let_def dest: fromhex_error split: sum.splits)

subsection \<open>The claims about the decoder\<close>

text \<open>
  Claim C2. For every pair of signed 256-bit integers, each between \<open>- 2 ^ 255\<close> and
  \<open>2 ^ 255 - 1\<close> with both ends and zero included, writing them as two consecutive
  segments of 64 hex digits, big-endian and in two's complement, and decoding the result
  gives the pair back. This holds with or without the marker \<open>0x\<close> and for digits of
  either case. The decoder is a function of its argument alone, so it is deterministic
  and has no effect.
\<close>

theorem decode_round_trip:
  assumes "- (2 ^ 255) \<le> a0" and "a0 < 2 ^ 255"
    and "- (2 ^ 255) \<le> a1" and "a1 < 2 ^ 255"
  shows "decode_swap_log (decode_to_hex marker upper a0 a1) = Inr (a0, a1)"
  using assms by (simp only: decode_segments from_bytes_to_bytes_32)

text \<open>The round trip at the two ends of the range, and at 0 and -1.\<close>

theorem decode_round_trip_witness:
  "decode_swap_log (decode_to_hex True False (- (2 ^ 255)) (2 ^ 255 - 1)) =
     Inr (- (2 ^ 255), 2 ^ 255 - 1) \<and>
   decode_swap_log (decode_to_hex False True 0 (- 1)) = Inr (0, - 1)"
  using decode_round_trip [of "- (2 ^ 255)" "2 ^ 255 - 1" True False]
    decode_round_trip [of 0 "- 1" False True]
  by simp

text \<open>
  Claim C9. Decoding the empty string, or the bare marker \<open>0x\<close>, returns the pair (0, 0)
  and raises nothing: both segments are empty slices, and the empty byte string is the
  integer 0.
\<close>

theorem decode_empty_and_bare_marker:
  "decode_swap_log '''' = Inr (0, 0) \<and> decode_swap_log ''0x'' = Inr (0, 0)"
  by (simp add: decode_swap_log_def strip_marker_def from_bytes_def)

text \<open>
  Claim C1 says that decoding fails whenever fewer than 128 hex characters remain after
  the marker, or a character among the first 128 is not a hex digit. The code checks no
  length and \<open>fromhex\<close> skips whitespace: the payload \<open>0xff\<close> decodes to (-1, 0), and 128
  spaces decode to (0, 0).
\<close>

theorem decode_short_payload_counterexample:
  "length (strip_marker ''0xff'') < 128 \<and> decode_swap_log ''0xff'' = Inr (- 1, 0) \<and>
   \<not> is_hex (CHR '' '') \<and> CHR '' '' \<in> set (take 128 (strip_marker (replicate 128 (CHR '' '')))) \<and>
   decode_swap_log (replicate 128 (CHR '' '')) = Inr (0, 0)"
  by code_simp

text \<open>
  Claim C1, amended. Write \<open>d\<close> for the input after the optional marker \<open>0x\<close> is
  stripped. If one of the first 128 characters of \<open>d\<close> is neither a hex digit nor ASCII
  whitespace, decoding fails with \<open>ValueError\<close> and returns no pair. If \<open>d\<close> consists of
  hex digits only and is shorter than 128, decoding fails with \<open>ValueError\<close> when the
  length of \<open>d\<close> is odd, and returns a pair when it is even: a short payload is not
  rejected for its length.
\<close>

theorem decode_failure_amended:
  "((\<exists>c \<in> set (take 128 (strip_marker s)). \<not> is_hex c \<and> \<not> py_isspace c) \<longrightarrow>
      decode_swap_log s = Inl ValueError) \<and>
   ((\<forall>c \<in> set (strip_marker s). is_hex c) \<and> length (strip_marker s) < 128 \<longrightarrow>
      (if odd (length (strip_marker s)) then decode_swap_log s = Inl ValueError
       else (\<exists>p. decode_swap_log s = Inr p)))"
proof (intro conjI impI)
  let ?d = "strip_marker s"
  assume "\<exists>c \<in> set (take 128 ?d). \<not> is_hex c \<and> \<not> py_isspace c"
  then obtain c where c: "c \<in> set (take 128 ?d)" "\<not> is_hex c" "\<not> py_isspace c" by blast
  have "take 128 ?d = take 64 ?d @ take 64 (drop 64 ?d)"
    using take_add [of 64 64 ?d] by simp
  then have "c \<in> set (take 64 ?d) \<or> c \<in> set (take 64 (drop 64 ?d))"
    using c(1) by auto
  then have "fromhex (take 64 ?d) = Inl ValueError \<or> fromhex (take 64 (drop 64 ?d)) = Inl ValueError"
    using fromhex_rejects c(2,3) by blast
  then show "decode_swap_log s = Inl ValueError"
    by (auto simp add: decode_swap_log_def Let_def dest: fromhex_error split: sum.splits)
next
  let ?d = "strip_marker s"
  assume a: "(\<forall>c \<in> set ?d. is_hex c) \<and> length ?d < 128"
  have h0: "\<forall>c \<in> set (take 64 ?d). is_hex c"
    using a by (auto dest: in_set_takeD)
  have h1: "\<forall>c \<in> set (take 64 (drop 64 ?d)). is_hex c"
    using a by (auto dest!: in_set_takeD in_set_dropD)
  note f0 = fromhex_hex_only [OF h0] and f1 = fromhex_hex_only [OF h1]
  show "if odd (length ?d) then decode_swap_log s = Inl ValueError
        else (\<exists>p. decode_swap_log s = Inr p)"
  proof (cases "length ?d \<le> 64")
    case True
    then have "take 64 ?d = ?d" "take 64 (drop 64 ?d) = []" by simp_all
    then show ?thesis using f0
      by (auto simp add: decode_swap_log_def Let_def split: if_splits)
  next
    case False
    then have l0: "length (take 64 ?d) = 64" and l1: "length (take 64 (drop 64 ?d)) = length ?d - 64"
      using a by auto
    have par: "odd (length ?d - 64) = odd (length ?d)" using False by auto
    show ?thesis using f0 f1 l0 l1 par
      by (auto simp add: decode_swap_log_def Let_def split: if_splits)
  qed
qed

text \<open>A character that is not a hex digit, an odd length and an even length.\<close>

theorem decode_failure_amended_witness:
  "decode_swap_log ''0xzz'' = Inl ValueError \<and> decode_swap_log ''0xabc'' = Inl ValueError \<and>
   (\<exists>p. decode_swap_log ''0xabcd'' = Inr p)"
  using decode_failure_amended [of "''0xzz''"] decode_failure_amended [of "''0xabc''"]
    decode_failure_amended [of "''0xabcd''"]
  by (simp add: strip_marker_def is_hex_def digit_value_def py_isspace_def)


section \<open>Properties of the classifier\<close>

lemma close_pair_iff:
  "close_pair ts \<longleftrightarrow> (\<exists>i. Suc i < length ts \<and> ts ! Suc i - ts ! i \<le> threshold)"
proof (induction ts rule: close_pair.induct)
  case (1 x y zs)
  have "(\<exists>i. Suc i < length (x # y # zs) \<and> (x # y # zs) ! Suc i - (x # y # zs) ! i \<le> threshold)
        \<longleftrightarrow> y - x \<le> threshold \<or>
            (\<exists>i. Suc i < length (y # zs) \<and> (y # zs) ! Suc i - (y # zs) ! i \<le> threshold)"
    (is "?L \<longleftrightarrow> ?A \<or> ?R")
  proof
    assume ?L
    then obtain i where i: "Suc i < length (x # y # zs)"
      "(x # y # zs) ! Suc i - (x # y # zs) ! i \<le> threshold" by blast
    show "?A \<or> ?R"
    proof (cases i)
      case 0
      then show ?thesis using i by simp
    next
      case (Suc j)
      then have "Suc j < length (y # zs) \<and> (y # zs) ! Suc j - (y # zs) ! j \<le> threshold"
        using i by simp
      then show ?thesis by blast
    qed
  next
    assume "?A \<or> ?R"
    then show ?L
    proof
      assume ?A
      then have "Suc 0 < length (x # y # zs) \<and> (x # y # zs) ! Suc 0 - (x # y # zs) ! 0 \<le> threshold"
        by simp
      then show ?L by blast
    next
      assume ?R
      then obtain j where "Suc j < length (y # zs)" "(y # zs) ! Suc j - (y # zs) ! j \<le> threshold"
        by blast
      then have "Suc (Suc j) < length (x # y # zs) \<and>
          (x # y # zs) ! Suc (Suc j) - (x # y # zs) ! Suc j \<le> threshold"
        by simp
      then show ?L by blast
    qed
  qed
  then show ?case using 1 by simp
qed simp_all

lemma length_groupby_diff: "length (groupby_diff seen xs) = length xs"
  by (induction xs arbitrary: seen) auto

lemma set_bot_senders:
  "set (bot_senders xs ds) = {sender r | r d. (r, d) \<in> set (zip xs ds) \<and> within_threshold d}"
  by (auto simp add: bot_senders_def)

lemma last_seen_Cons:
  "last_seen a (r # seen) = (if sender r = a then [r] else last_seen a seen)"
  by (simp add: last_seen_def)

lemma close_pair_append_one:
  "close_pair (map block_timestamp (last_seen a seen) @ t # ts) \<longleftrightarrow>
     within_threshold
       (case find (\<lambda>q. sender q = a) seen of None \<Rightarrow> None
        | Some p \<Rightarrow> Some (t - block_timestamp p))
     \<or> close_pair (t # ts)"
  by (simp add: last_seen_def within_threshold_def split: option.splits)

lemma flagged_iff_close_pair:
  "a \<in> set (bot_senders xs (groupby_diff seen xs)) \<longleftrightarrow>
     close_pair (map block_timestamp (last_seen a seen @ filter (\<lambda>r. sender r = a) xs))"
proof (induction xs arbitrary: seen)
  case Nil
  show ?case by (simp add: set_bot_senders last_seen_def split: option.splits)
next
  case (Cons r rs)
  let ?d = "case find (\<lambda>q. sender q = sender r) seen of None \<Rightarrow> None
            | Some p \<Rightarrow> Some (block_timestamp r - block_timestamp p)"
  have step: "a \<in> set (bot_senders (r # rs) (groupby_diff seen (r # rs))) \<longleftrightarrow>
      (sender r = a \<and> within_threshold ?d) \<or>
      a \<in> set (bot_senders rs (groupby_diff (r # seen) rs))"
    by (auto simp add: set_bot_senders)
  show ?case
  proof (cases "sender r = a")
    case True
    have "close_pair (map block_timestamp (last_seen a seen @ filter (\<lambda>r. sender r = a) (r # rs)))
        \<longleftrightarrow> within_threshold ?d \<or>
            close_pair (block_timestamp r # map block_timestamp (filter (\<lambda>r. sender r = a) rs))"
      using True close_pair_append_one [of a seen "block_timestamp r"] by simp
    then show ?thesis
      using Cons.IH [of "r # seen"] step True by (simp add: last_seen_Cons)
  next
    case False
    then show ?thesis
      using Cons.IH [of "r # seen"] step by (simp add: last_seen_Cons)
  qed
qed

lemma sorted_timestamps_of_one_sender:
  assumes "sorted (map (\<lambda>r. (sender r, block_timestamp r)) zs)"
    and "\<forall>z \<in> set zs. sender z = a"
  shows "sorted (map block_timestamp zs)"
proof -
  have "sorted_wrt (\<lambda>x y. (sender x, block_timestamp x) \<le> (sender y, block_timestamp y)) zs"
    using assms(1) by (simp add: sorted_map)
  then have "sorted_wrt (\<lambda>x y. block_timestamp x \<le> block_timestamp y) zs"
    by (rule sorted_wrt_mono_rel [rotated]) (use assms(2) in \<open>simp add: less_eq_prod_def\<close>)
  then show ?thesis by (simp add: sorted_map)
qed

lemma actor_rows_sorted:
  "map block_timestamp (filter (\<lambda>r. sender r = a) (sort_by_sender_timestamp df)) =
     actor_timestamps a df"
proof -
  let ?k = "\<lambda>r::decoded_event. (sender r, block_timestamp r)"
  let ?ys = "filter (\<lambda>r. sender r = a) df"
  have eq: "filter (\<lambda>r. sender r = a) (sort_by_sender_timestamp df) = sort_key ?k ?ys"
    by (simp add: sort_by_sender_timestamp_def filter_sort)
  have "sorted (map ?k (sort_key ?k ?ys))" by (rule sorted_sort_key)
  then have "sorted (map block_timestamp (sort_key ?k ?ys))"
    by (rule sorted_timestamps_of_one_sender [where a = a]) simp
  moreover have "mset (map block_timestamp (sort_key ?k ?ys)) = mset (map block_timestamp ?ys)"
    by simp
  ultimately have "sort (map block_timestamp ?ys) = map block_timestamp (sort_key ?k ?ys)"
    by (rule properties_for_sort [rotated])
  then show ?thesis by (simp add: eq actor_timestamps_def)
qed

lemma classified_rows_of_actor:
  "length ds = length xs \<Longrightarrow>
   map block_timestamp (filter (\<lambda>q. sender q = a) (map (classify_row bots) (zip xs ds))) =
   map block_timestamp (filter (\<lambda>r. sender r = a) xs)"
  by (induction ds xs rule: list_induct2) (auto simp add: classify_row_def)

lemma classified_row_is_bot:
  "r \<in> set (map (classify_row bots) (zip xs ds)) \<Longrightarrow> is_bot r \<longleftrightarrow> sender r \<in> set bots"
  by (auto simp add: classify_row_def)

lemma is_bot_iff_close_pair:
  assumes "r \<in> set (classify df)"
  shows "is_bot r \<longleftrightarrow> close_pair (actor_timestamps (sender r) df)"
proof -
  let ?xs = "sort_by_sender_timestamp df"
  have "is_bot r \<longleftrightarrow> sender r \<in> set (bot_senders ?xs (groupby_diff [] ?xs))"
    using assms classified_row_is_bot by (simp add: classify_def Let_def)
  also have "\<dots> \<longleftrightarrow> close_pair (map block_timestamp (filter (\<lambda>q. sender q = sender r) ?xs))"
    using flagged_iff_close_pair [of "sender r" ?xs "[]"] by (simp add: last_seen_def)
  finally show ?thesis by (simp add: actor_rows_sorted)
qed

lemma classify_senders: "sender ` set (classify df) = sender ` set df"
proof -
  let ?xs = "sort_by_sender_timestamp df"
  have "map sender (map (classify_row bots) (zip xs ds)) = map sender xs"
    if "length ds = length xs" for bots xs ds
    using that by (induction ds xs rule: list_induct2) (auto simp add: classify_row_def)
  then have "map sender (classify df) = map sender ?xs"
    by (simp add: classify_def Let_def length_groupby_diff)
  then have "set (map sender (classify df)) = set (map sender ?xs)" by simp
  then show ?thesis by (simp add: sort_by_sender_timestamp_def)
qed

subsection \<open>The claims about the classifier\<close>

text \<open>
  Claim C3. For every set of events and every actor, the rows of that actor in the
  classified frame are in ascending order of timestamp, and every row of the actor has
  \<open>is_bot\<close> true if two consecutive timestamps of the actor are at most the threshold of
  5 minutes apart, and false if every such gap is longer than the threshold.
\<close>

theorem classifier_flags_actor:
  "map block_timestamp (filter (\<lambda>q. sender q = a) (classify df)) = actor_timestamps a df \<and>
   (\<forall>r \<in> set (classify df). sender r = a \<longrightarrow>
      (is_bot r \<longleftrightarrow>
        (\<exists>i. Suc i < length (actor_timestamps a df) \<and>
             actor_timestamps a df ! Suc i - actor_timestamps a df ! i \<le> threshold)))"
proof
  show "map block_timestamp (filter (\<lambda>q. sender q = a) (classify df)) = actor_timestamps a df"
    using classified_rows_of_actor [OF length_groupby_diff] actor_rows_sorted
    by (simp add: classify_def Let_def)
next
  show "\<forall>r \<in> set (classify df). sender r = a \<longrightarrow>
      (is_bot r \<longleftrightarrow>
        (\<exists>i. Suc i < length (actor_timestamps a df) \<and>
             actor_timestamps a df ! Suc i - actor_timestamps a df ! i \<le> threshold))"
    using is_bot_iff_close_pair close_pair_iff by blast
qed

text \<open>
  An actor with events at 10:00 and 10:04 is flagged; one with events at 10:00 and 10:10
  is not.
\<close>

theorem classifier_flags_actor_witness:
  "(\<exists>r \<in> set (classify [decoded_sample ''0xA'' (minutes 600), decoded_sample ''0xB'' (minutes 600),
        decoded_sample ''0xA'' (minutes 604), decoded_sample ''0xB'' (minutes 610)]).
      sender r = ''0xA'' \<and> is_bot r) \<and>
   (\<exists>r \<in> set (classify [decoded_sample ''0xA'' (minutes 600), decoded_sample ''0xB'' (minutes 600),
        decoded_sample ''0xA'' (minutes 604), decoded_sample ''0xB'' (minutes 610)]).
      sender r = ''0xB'' \<and> \<not> is_bot r)"
proof -
  let ?df = "[decoded_sample ''0xA'' (minutes 600), decoded_sample ''0xB'' (minutes 600),
        decoded_sample ''0xA'' (minutes 604), decoded_sample ''0xB'' (minutes 610)]"
  have ta: "actor_timestamps ''0xA'' ?df = [minutes 600, minutes 604]"
    by (simp add: actor_timestamps_def decoded_sample_def minutes_def)
  have tb: "actor_timestamps ''0xB'' ?df = [minutes 600, minutes 610]"
    by (simp add: actor_timestamps_def decoded_sample_def minutes_def)
  note fa = classifier_flags_actor [of "''0xA''" ?df]
  note fb = classifier_flags_actor [of "''0xB''" ?df]
  have "filter (\<lambda>q. sender q = ''0xA'') (classify ?df) \<noteq> []"
    using fa ta by auto
  then obtain ra where ra: "ra \<in> set (classify ?df)" "sender ra = ''0xA''"
    by (auto simp add: filter_empty_conv)
  have "Suc 0 < length [minutes 600, minutes 604] \<and>
        [minutes 600, minutes 604] ! Suc 0 - [minutes 600, minutes 604] ! 0 \<le> threshold"
    by (simp add: minutes_def threshold_def)
  then have "\<exists>i. Suc i < length [minutes 600, minutes 604] \<and>
        [minutes 600, minutes 604] ! Suc i - [minutes 600, minutes 604] ! i \<le> threshold"
    by blast
  then have a: "is_bot ra" using fa ta ra by simp
  have "filter (\<lambda>q. sender q = ''0xB'') (classify ?df) \<noteq> []"
    using fb tb by auto
  then obtain rb where rb: "rb \<in> set (classify ?df)" "sender rb = ''0xB''"
    by (auto simp add: filter_empty_conv)
  have "\<not> (\<exists>i. Suc i < length [minutes 600, minutes 610] \<and>
        [minutes 600, minutes 610] ! Suc i - [minutes 600, minutes 610] ! i \<le> threshold)"
    by (auto simp add: minutes_def threshold_def less_Suc_eq)
  then have b: "\<not> is_bot rb" using fb tb rb by simp
  show ?thesis using a b ra rb by blast
qed

text \<open>
  Claim C6. An actor with exactly one event in the run is not flagged, whatever the
  timestamp of that event and whatever the events of the other actors.
\<close>

theorem single_event_actor_not_bot:
  assumes "length (filter (\<lambda>q. sender q = a) df) = 1"
    and "r \<in> set (classify df)" and "sender r = a"
  shows "\<not> is_bot r"
proof -
  obtain e where "filter (\<lambda>q. sender q = a) df = [e]"
    using assms(1) by (cases "filter (\<lambda>q. sender q = a) df") auto
  then have "actor_timestamps a df = [block_timestamp e]"
    by (simp add: actor_timestamps_def)
  then show ?thesis
    using is_bot_iff_close_pair [OF assms(2)] assms(3) by simp
qed


text \<open>The only event of one actor, between two events of another.\<close>

theorem single_event_actor_not_bot_witness:
  "\<exists>r \<in> set (classify [decoded_sample ''0xA'' (minutes 600), decoded_sample ''0xB'' (minutes 601),
        decoded_sample ''0xA'' (minutes 602)]). sender r = ''0xB'' \<and> \<not> is_bot r"
proof -
  let ?df = "[decoded_sample ''0xA'' (minutes 600), decoded_sample ''0xB'' (minutes 601),
        decoded_sample ''0xA'' (minutes 602)]"
  have one: "length (filter (\<lambda>q. sender q = ''0xB'') ?df) = 1"
    by (simp add: decoded_sample_def)
  have "''0xB'' \<in> sender ` set ?df"
    by (simp add: decoded_sample_def)
  then have "''0xB'' \<in> sender ` set (classify ?df)"
    by (simp only: classify_senders)
  then obtain r where r: "r \<in> set (classify ?df)" "sender r = ''0xB''"
    by (elim imageE) simp
  then show ?thesis
    using single_event_actor_not_bot [OF one r] by blast
qed


section \<open>Properties of a run\<close>

lemma annotate_narratives:
  "fst (annotate svc s rows) = map narrative_of (responses svc s (map build_prompt rows))"
  by (induction rows arbitrary: s) (auto simp add: Let_def split_beta)

lemma annotate_calls: "fst (snd (annotate svc s rows)) = map build_prompt rows"
  by (induction rows arbitrary: s) (auto simp add: Let_def split_beta)

lemma length_responses: "length (responses svc s ps) = length ps"
  by (induction ps arbitrary: s) (auto simp add: Let_def split_beta)

lemma length_skip_remaining: "length (skip_remaining df) = length df - 10"
  by (simp add: skip_remaining_def)

lemma without_with_narrative: "without_narrative (with_narrative r n) = r"
  by (simp add: without_narrative_def with_narrative_def)

lemma narrative_with_narrative: "AI_Narrative (with_narrative r n) = n"
  by (simp add: with_narrative_def)

lemma assign_narratives_ok:
  "length ns = length df \<Longrightarrow>
   assign_narratives df ns = Inr (map (\<lambda>(r, n). with_narrative r n) (zip df ns))"
  by (simp add: assign_narratives_def)

lemma assigned_rows:
  "length ns = length df \<Longrightarrow>
   map without_narrative (map (\<lambda>(r, n). with_narrative r n) (zip df ns)) = df \<and>
   map AI_Narrative (map (\<lambda>(r, n). with_narrative r n) (zip df ns)) = ns"
  by (induction ns df rule: list_induct2)
     (simp_all add: without_with_narrative narrative_with_narrative)

lemma decode_row_ok:
  "decode_swap_log (data r) = Inr p \<Longrightarrow> \<exists>d. decode_row r = Inr d"
  by (simp add: decode_row_def split: prod.splits)

lemma decode_rows_ok:
  "\<forall>r \<in> set rows. \<exists>p. decode_swap_log (data r) = Inr p \<Longrightarrow> \<exists>df. decode_rows rows = Inr df"
proof (induction rows)
  case Nil
  show ?case by simp
next
  case (Cons r rs)
  then obtain p where "decode_swap_log (data r) = Inr p" by auto
  then obtain d where "decode_row r = Inr d" using decode_row_ok by blast
  moreover obtain ds where "decode_rows rs = Inr ds" using Cons by auto
  ultimately show ?case by simp
qed

lemma length_decode_rows: "decode_rows rows = Inr df \<Longrightarrow> length df = length rows"
  by (induction rows arbitrary: df) (auto split: sum.splits)

lemma length_classify: "length (classify df) = length df"
  by (simp add: classify_def Let_def length_groupby_diff sort_by_sender_timestamp_def)

lemma length_display_set: "length (display_set cf) = min 20 (length cf)"
  by (simp add: display_set_def sort_descending_def min.commute)

lemma length_displayed:
  "decode_rows rows = Inr df \<Longrightarrow> length (displayed rows) = min 20 (length rows)"
  by (simp add: displayed_def length_display_set length_classify length_decode_rows)

lemma display_set_descending:
  "sorted_wrt (\<lambda>x y. block_timestamp y \<le> block_timestamp x) (display_set cf)"
proof -
  have "sorted (map block_timestamp (sort_key block_timestamp (rev cf)))"
    by (rule sorted_sort_key)
  then have "sorted_wrt (\<lambda>x y. block_timestamp x \<le> block_timestamp y)
      (sort_key block_timestamp (rev cf))"
    by (simp add: sorted_map)
  then have "sorted_wrt (\<lambda>x y. block_timestamp y \<le> block_timestamp x) (sort_descending cf)"
    by (simp add: sort_descending_def sorted_wrt_rev)
  then show ?thesis
    unfolding display_set_def by (rule sorted_wrt_take)
qed

lemma length_narratives:
  "length (fst (annotate svc s (take 10 df)) @ skip_remaining df) = length df"
  by (simp add: annotate_narratives length_responses length_skip_remaining)

lemma run_unfold:
  assumes "configure e = Inr ()" and "rows \<noteq> []" and "decode_rows rows = Inr df"
  shows "get_crypto_data e (Rows rows) svc s =
    Inr (map (\<lambda>(r, n). with_narrative r n)
           (zip (displayed rows)
              (fst (annotate svc s (take 10 (displayed rows))) @ skip_remaining (displayed rows))),
         map build_prompt (take 10 (displayed rows)),
         snd (snd (annotate svc s (take 10 (displayed rows)))))"
proof -
  let ?D = "display_set (classify df)"
  have D: "displayed rows = ?D" using assms(3) by (simp add: displayed_def)
  obtain ns cs s1 where a: "annotate svc s (take 10 ?D) = (ns, cs, s1)"
    by (cases "annotate svc s (take 10 ?D)") auto
  have cs: "cs = map build_prompt (take 10 ?D)"
    using annotate_calls [of svc s "take 10 ?D"] a by simp
  have len: "length (ns @ skip_remaining ?D) = length ?D"
    using length_narratives [of svc s ?D] a by simp
  show ?thesis
    using assms a cs assign_narratives_ok [OF len]
    by (simp add: get_crypto_data_def D Let_def)
qed

lemma run_returned:
  assumes "get_crypto_data e (Rows rows) svc s = Inr out" and "rows \<noteq> []"
  shows "configure e = Inr () \<and> (\<exists>df. decode_rows rows = Inr df)"
  using assms by (auto simp add: get_crypto_data_def split: sum.splits)


lemma run_returns:
  assumes "configure e = Inr ()"
    and "\<forall>r \<in> set rows. \<exists>p. decode_swap_log (data r) = Inr p"
  shows "\<exists>res calls s'. get_crypto_data e (Rows rows) svc s = Inr (res, calls, s')"
proof (cases "rows = []")
  case True
  then show ?thesis using assms(1) by (simp add: get_crypto_data_def)
next
  case False
  obtain df where df: "decode_rows rows = Inr df"
    using decode_rows_ok [OF assms(2)] by blast
  show ?thesis using run_unfold [OF assms(1) False df, of svc s] by simp
qed

lemma run_result:
  assumes "get_crypto_data e (Rows rows) svc s = Inr (res, calls, s')" and "rows \<noteq> []"
  shows "map without_narrative res = displayed rows"
    and "calls = map build_prompt (take 10 (displayed rows))"
    and "map AI_Narrative res =
           map narrative_of (responses svc s calls) @ skip_remaining (displayed rows)"
    and "length (displayed rows) = min 20 (length rows)"
proof -
  let ?D = "displayed rows"
  let ?ns = "fst (annotate svc s (take 10 ?D)) @ skip_remaining ?D"
  obtain df where cfg: "configure e = Inr ()" and df: "decode_rows rows = Inr df"
    using run_returned [OF assms] by blast
  have res: "res = map (\<lambda>(r, n). with_narrative r n) (zip ?D ?ns)"
    and calls: "calls = map build_prompt (take 10 ?D)"
    using run_unfold [OF cfg assms(2) df, of svc s] assms(1) by simp_all
  note rows = assigned_rows [OF length_narratives [of svc s ?D]]
  show "map without_narrative res = ?D" using res rows by simp
  show "calls = map build_prompt (take 10 ?D)" by (rule calls)
  show "map AI_Narrative res =
          map narrative_of (responses svc s calls) @ skip_remaining ?D"
    using res rows calls by (simp add: annotate_narratives)
  show "length ?D = min 20 (length rows)" using df by (rule length_displayed)
qed

lemma sample_rows_decodable:
  "\<forall>r \<in> set (sample_rows n). \<exists>p. decode_swap_log (data r) = Inr p"
  by (simp add: sample_rows_def sample_event_def decode_segments)

lemma sample_env_ok: "configure sample_env = Inr ()"
  by (simp add: configure_def sample_env_def unset_def)

lemma snd_sample_service: "snd (sample_service n p) = Suc n"
  by (simp add: sample_service_def)

lemma responses_sample_service:
  "i < length ps \<Longrightarrow>
   responses sample_service n ps ! i = fst (sample_service (n + i) (ps ! i))"
proof (induction ps arbitrary: n i)
  case Nil
  then show ?case by simp
next
  case (Cons p ps)
  have unfold: "responses sample_service n (p # ps) =
      fst (sample_service n p) # responses sample_service (Suc n) ps"
    by (simp add: split_beta snd_sample_service)
  show ?case
  proof (cases i)
    case 0
    then show ?thesis by (simp only: unfold nth_Cons_0 add_0_right)
  next
    case (Suc j)
    then have "j < length ps" using Cons.prems by simp
    then have "responses sample_service (Suc n) ps ! j = fst (sample_service (Suc n + j) (ps ! j))"
      by (rule Cons.IH)
    then show ?thesis using Suc by (simp only: unfold nth_Cons_Suc add_Suc_shift add_Suc)
  qed
qed

lemma narrative_of_cases:
  "narrative_of g =
     (case g of
        Text t \<Rightarrow> strip t
      | RaiseNotFound \<Rightarrow> ''analysis unavailable (api limit). [neutral]''
      | RaiseTooManyRequests \<Rightarrow> ''analysis unavailable (api limit). [neutral]''
      | RaiseOther \<Rightarrow> ''analysis failed. [neutral]'')"
  by (cases g) (simp_all add: analysis_unavailable_def analysis_failed_def)

lemma displayed_descending:
  "sorted_wrt (\<lambda>x y. block_timestamp y \<le> block_timestamp x) (displayed rows)"
  by (cases "decode_rows rows") (simp_all add: displayed_def display_set_descending)

lemma decode_rows_events:
  "decode_rows rows = Inr df \<Longrightarrow>
   map (\<lambda>r. (sender r, block_timestamp r, data r)) df =
   map (\<lambda>r. (sender r, block_timestamp r, data r)) rows"
proof (induction rows arbitrary: df)
  case Nil
  then show ?case by simp
next
  case (Cons r rs)
  then obtain d ds where d: "decode_row r = Inr d" and ds: "decode_rows rs = Inr ds"
    and df: "df = d # ds"
    by (auto split: sum.splits)
  have "sender d = sender r \<and> block_timestamp d = block_timestamp r \<and> data d = data r"
    using d by (auto simp add: decode_row_def split: sum.splits prod.splits)
  then show ?case using Cons.IH [OF ds] df by simp
qed

lemma classify_row_events:
  "length ds = length xs \<Longrightarrow>
   map (\<lambda>r. (sender r, block_timestamp r, data r)) (map (classify_row bots) (zip xs ds)) =
   map (\<lambda>r. (sender r, block_timestamp r, data r)) xs"
  by (induction ds xs rule: list_induct2) (auto simp add: classify_row_def)

lemma classify_events:
  "mset (map (\<lambda>r. (sender r, block_timestamp r, data r)) (classify df)) =
   mset (map (\<lambda>r. (sender r, block_timestamp r, data r)) df)"
proof -
  have "map (\<lambda>r. (sender r, block_timestamp r, data r)) (classify df) =
        map (\<lambda>r. (sender r, block_timestamp r, data r)) (sort_by_sender_timestamp df)"
    by (simp only: classify_def Let_def classify_row_events [OF length_groupby_diff])
  then show ?thesis by (simp add: sort_by_sender_timestamp_def)
qed

lemma displayed_events:
  assumes "decode_rows rows = Inr df" and "length rows \<le> 20"
  shows "mset (map (\<lambda>r. (sender r, block_timestamp r, data r)) (displayed rows)) =
         mset (map (\<lambda>r. (sender r, block_timestamp r, data r)) rows)"
proof -
  have "length (sort_descending (classify df)) \<le> 20"
    using assms by (simp add: sort_descending_def length_classify length_decode_rows)
  then have "displayed rows = sort_descending (classify df)"
    using assms(1) by (simp add: displayed_def display_set_def)
  then have "mset (map (\<lambda>r. (sender r, block_timestamp r, data r)) (displayed rows)) =
      mset (map (\<lambda>r. (sender r, block_timestamp r, data r)) (classify df))"
    by (simp add: sort_descending_def)
  then show ?thesis
    using classify_events [of df] decode_rows_events [OF assms(1)] by simp
qed

lemma run_narratives:
  assumes "get_crypto_data e (Rows rows) svc s = Inr (res, calls, s')" and "rows \<noteq> []"
  shows "length res = min 20 (length rows)"
    and "length calls = min 10 (length rows)"
    and "i < length calls \<Longrightarrow> AI_Narrative (res ! i) = narrative_of (responses svc s calls ! i)"
    and "length calls \<le> i \<Longrightarrow> i < length res \<Longrightarrow>
           AI_Narrative (res ! i) = ''analysis skipped to save api credits. [neutral]''"
proof -
  note r = run_result [OF assms]
  let ?D = "displayed rows"
  have len: "length res = length ?D" using r(1) by (metis length_map)
  show lres: "length res = min 20 (length rows)" using len r(4) by simp
  show lc: "length calls = min 10 (length rows)" using r(2) r(4) by simp
  have nth: "AI_Narrative (res ! i) =
      (map narrative_of (responses svc s calls) @ skip_remaining ?D) ! i" if "i < length res"
    using that r(3) by (metis nth_map)
  show "AI_Narrative (res ! i) = narrative_of (responses svc s calls ! i)" if "i < length calls"
  proof -
    have "i < length res" using that lc lres by simp
    then show ?thesis using nth that by (simp add: nth_append length_responses)
  qed
  show "AI_Narrative (res ! i) = ''analysis skipped to save api credits. [neutral]''"
    if "length calls \<le> i" "i < length res"
  proof -
    have ten: "10 \<le> i" "length calls = 10"
      using that lc lres by (auto simp add: min_def split: if_splits)
    then have "i - 10 < length (skip_remaining ?D)"
      using that(2) len by (simp add: length_skip_remaining)
    then have "skip_remaining ?D ! (i - 10) = ''analysis skipped to save api credits. [neutral]''"
      by (simp add: skip_remaining_def analysis_skipped_def)
    then show ?thesis
      using nth [OF that(2)] ten by (simp add: nth_append length_responses)
  qed
qed

subsection \<open>The claims about a run\<close>

text \<open>
  Claim C7. If the event source returns no rows, or the query itself fails, the run
  returns an empty result and raises nothing, and no call to the narrative service is
  made: the list of prompts sent is empty and the state of the service is unchanged.
\<close>

theorem empty_source_empty_result:
  assumes "configure e = Inr ()"
  shows "get_crypto_data e QueryFailed svc s = Inr ([], [], s) \<and>
         get_crypto_data e (Rows []) svc s = Inr ([], [], s)"
  using assms by (simp add: get_crypto_data_def)

text \<open>Both cases with the example environment.\<close>

theorem empty_source_empty_result_witness:
  "get_crypto_data sample_env QueryFailed sample_service 0 = Inr ([], [], 0) \<and>
   get_crypto_data sample_env (Rows []) sample_service 0 = Inr ([], [], 0)"
  using empty_source_empty_result [of sample_env sample_service 0]
  by (simp add: configure_def sample_env_def unset_def)

text \<open>
  Claim C8. For every fetched set of events that is not empty, the returned result has at
  most 20 rows (as many as were fetched when that is fewer), ordered by timestamp with the
  newest first, and every returned row carries a narrative: the answer of the service for
  the first ten rows, the placeholder for the others.
\<close>

theorem run_result_shape:
  assumes "get_crypto_data e (Rows rows) svc s = Inr (res, calls, s')" and "rows \<noteq> []"
  shows "length res \<le> 20 \<and> length res = min 20 (length rows) \<and>
         sorted_wrt (\<lambda>x y. block_timestamp y \<le> block_timestamp x) res \<and>
         map without_narrative res = displayed rows \<and>
         (\<forall>i < length res. AI_Narrative (res ! i) =
            (if i < 10 then narrative_of (responses svc s calls ! i) else analysis_skipped))"
proof -
  note r = run_result [OF assms]
  let ?D = "displayed rows"
  have len: "length res = length ?D"
    using r(1) by (metis length_map)
  have lc: "length calls = min 10 (length ?D)" using r(2) by simp
  obtain df where df: "decode_rows rows = Inr df"
    using run_returned [OF assms] by blast
  have "sorted_wrt (\<lambda>x y. block_timestamp y \<le> block_timestamp x) ?D"
    using df by (simp add: displayed_def display_set_descending)
  then have "sorted_wrt (\<lambda>x y. block_timestamp y \<le> block_timestamp x) (map without_narrative res)"
    by (simp only: r(1))
  then have sorted: "sorted_wrt (\<lambda>x y. block_timestamp y \<le> block_timestamp x) res"
    by (simp add: sorted_wrt_map without_narrative_def)
  have nar: "AI_Narrative (res ! i) =
      (if i < 10 then narrative_of (responses svc s calls ! i) else analysis_skipped)"
    if i: "i < length res" for i
  proof -
    have "AI_Narrative (res ! i) =
        (map narrative_of (responses svc s calls) @ skip_remaining ?D) ! i"
      using i r(3) by (metis nth_map)
    then show ?thesis
      using i len lc
      by (auto simp add: nth_append length_responses skip_remaining_def)
  qed
  show ?thesis using len r(4) r(1) sorted nar by simp
qed


text \<open>A run on 25 events returns 20 rows.\<close>

theorem run_result_shape_witness:
  "\<exists>res calls s'.
     get_crypto_data sample_env (Rows (sample_rows 25)) sample_service 0 = Inr (res, calls, s') \<and>
     length res = 20 \<and>
     sorted_wrt (\<lambda>x y. block_timestamp y \<le> block_timestamp x) res \<and>
     (\<forall>i < length res. AI_Narrative (res ! i) =
        (if i < 10 then narrative_of (responses sample_service 0 calls ! i)
         else analysis_skipped))"
proof -
  obtain res calls s' where
    run: "get_crypto_data sample_env (Rows (sample_rows 25)) sample_service 0 = Inr (res, calls, s')"
    using run_returns [where svc = sample_service and s = "0::nat",
        OF sample_env_ok sample_rows_decodable]
    by blast
  have ne: "sample_rows 25 \<noteq> []" and len: "length (sample_rows 25) = 25"
    by (simp_all add: sample_rows_def)
  show ?thesis
    using run run_result_shape [OF run ne] len by auto
qed

text \<open>
  Claim C4. With 15 fetched events, the display set holds these 15 events in descending
  order of timestamp. Its first 10 rows, and only they, are sent to the narrative service,
  in order, and each receives the stripped text of the service or the fallback of its
  exception; the other 5 rows receive the fixed placeholder, and no call is made for
  them: exactly 10 prompts are sent.
\<close>

theorem fifteen_events_budget:
  assumes "get_crypto_data e (Rows rows) svc s = Inr (res, calls, s')"
    and "length rows = 15"
  shows "length res = 15 \<and> map without_narrative res = displayed rows \<and>
         sorted_wrt (\<lambda>x y. block_timestamp y \<le> block_timestamp x) (displayed rows) \<and>
         mset (map (\<lambda>r. (sender r, block_timestamp r, data r)) (displayed rows)) =
           mset (map (\<lambda>r. (sender r, block_timestamp r, data r)) rows) \<and>
         calls = map build_prompt (take 10 (displayed rows)) \<and> length calls = 10 \<and>
         (\<forall>i < 10. AI_Narrative (res ! i) =
            (case responses svc s calls ! i of
               Text t \<Rightarrow> strip t
             | RaiseNotFound \<Rightarrow> ''analysis unavailable (api limit). [neutral]''
             | RaiseTooManyRequests \<Rightarrow> ''analysis unavailable (api limit). [neutral]''
             | RaiseOther \<Rightarrow> ''analysis failed. [neutral]'')) \<and>
         (\<forall>i. 10 \<le> i \<and> i < 15 \<longrightarrow>
            AI_Narrative (res ! i) = ''analysis skipped to save api credits. [neutral]'')"
proof -
  have ne: "rows \<noteq> []" using assms(2) by auto
  note r = run_result [OF assms(1) ne]
  note n = run_narratives [OF assms(1) ne]
  obtain df where df: "decode_rows rows = Inr df"
    using run_returned [OF assms(1) ne] by blast
  have ev: "mset (map (\<lambda>r. (sender r, block_timestamp r, data r)) (displayed rows)) =
      mset (map (\<lambda>r. (sender r, block_timestamp r, data r)) rows)"
    using displayed_events [OF df] assms(2) by simp
  have len: "length res = 15" using n(1) assms(2) by simp
  have lc: "length calls = 10" using n(2) assms(2) by simp
  have first: "AI_Narrative (res ! i) =
      (case responses svc s calls ! i of
         Text t \<Rightarrow> strip t
       | RaiseNotFound \<Rightarrow> ''analysis unavailable (api limit). [neutral]''
       | RaiseTooManyRequests \<Rightarrow> ''analysis unavailable (api limit). [neutral]''
       | RaiseOther \<Rightarrow> ''analysis failed. [neutral]'')" if "i < 10" for i
    using that n(3) [of i] lc narrative_of_cases [of "responses svc s calls ! i"] by simp
  have rest: "AI_Narrative (res ! i) = ''analysis skipped to save api credits. [neutral]''"
    if "10 \<le> i" "i < 15" for i
    using that n(4) [of i] lc len by simp
  show ?thesis
    using len r(1) displayed_descending [of rows] ev r(2) lc first rest by blast
qed

text \<open>
  A run on 15 events: a text for the first and the tenth row, the fallbacks for the third
  and the fifth, the placeholder from the eleventh row on.
\<close>

theorem fifteen_events_budget_witness:
  "\<exists>res calls s'.
     get_crypto_data sample_env (Rows (sample_rows 15)) sample_service 0 = Inr (res, calls, s') \<and>
     length res = 15 \<and> length calls = 10 \<and>
     sorted_wrt (\<lambda>x y. block_timestamp y \<le> block_timestamp x) (map without_narrative res) \<and>
     AI_Narrative (res ! 0) = ''user bought token0. [bullish]'' \<and>
     AI_Narrative (res ! 2) = ''analysis unavailable (api limit). [neutral]'' \<and>
     AI_Narrative (res ! 4) = ''analysis failed. [neutral]'' \<and>
     AI_Narrative (res ! 9) = ''user bought token0. [bullish]'' \<and>
     (\<forall>i. 10 \<le> i \<and> i < 15 \<longrightarrow>
        AI_Narrative (res ! i) = ''analysis skipped to save api credits. [neutral]'')"
proof -
  obtain res calls s' where
    run: "get_crypto_data sample_env (Rows (sample_rows 15)) sample_service 0 = Inr (res, calls, s')"
    using run_returns [where svc = sample_service and s = "0::nat",
        OF sample_env_ok sample_rows_decodable]
    by blast
  have len: "length (sample_rows 15) = 15"
    by (simp add: sample_rows_def)
  note t = fifteen_events_budget [OF run len]
  have lc: "length calls = 10" using t by blast
  have st: "strip '' user bought token0. [bullish] '' = ''user bought token0. [bullish]''"
    by (simp add: strip_def py_str_isspace_def)
  have resp: "responses sample_service 0 calls ! 0 = Text '' user bought token0. [bullish] ''"
    "responses sample_service 0 calls ! 2 = RaiseTooManyRequests"
    "responses sample_service 0 calls ! 4 = RaiseOther"
    "responses sample_service 0 calls ! 9 = Text '' user bought token0. [bullish] ''"
    using lc by (simp_all add: responses_sample_service sample_service_def)
  have nar: "\<forall>i < 10. AI_Narrative (res ! i) =
            (case responses sample_service 0 calls ! i of
               Text t \<Rightarrow> strip t
             | RaiseNotFound \<Rightarrow> ''analysis unavailable (api limit). [neutral]''
             | RaiseTooManyRequests \<Rightarrow> ''analysis unavailable (api limit). [neutral]''
             | RaiseOther \<Rightarrow> ''analysis failed. [neutral]'')"
    using t by blast
  have n0: "AI_Narrative (res ! 0) = ''user bought token0. [bullish]''"
    using nar [rule_format, of 0] resp(1) st by simp
  have n2: "AI_Narrative (res ! 2) = ''analysis unavailable (api limit). [neutral]''"
    using nar [rule_format, of 2] resp(2) by simp
  have n4: "AI_Narrative (res ! 4) = ''analysis failed. [neutral]''"
    using nar [rule_format, of 4] resp(3) by simp
  have n9: "AI_Narrative (res ! 9) = ''user bought token0. [bullish]''"
    using nar [rule_format, of 9] resp(4) st by simp
  have srt: "sorted_wrt (\<lambda>x y. block_timestamp y \<le> block_timestamp x) (map without_narrative res)"
    using t by simp
  have rest: "\<forall>i. 10 \<le> i \<and> i < 15 \<longrightarrow>
        AI_Narrative (res ! i) = ''analysis skipped to save api credits. [neutral]''"
    using t by blast
  have lr: "length res = 15" using t by blast
  show ?thesis using run lr lc srt n0 n2 n4 n9 rest by blast
qed


text \<open>
  Claim C10. The narratives are aligned with the rows of the display set, one for each row,
  whatever the size of the display set. When the display set has at most 10 rows, every
  row is sent to the narrative service, every narrative is an answer to such a call, and
  the second loop adds no placeholder.
\<close>

theorem small_display_set_all_attempted:
  assumes "get_crypto_data e (Rows rows) svc s = Inr (res, calls, s')" and "rows \<noteq> []"
  shows "map without_narrative res = displayed rows \<and>
         length (map AI_Narrative res) = length (displayed rows) \<and>
         (length (displayed rows) \<le> 10 \<longrightarrow>
            calls = map build_prompt (displayed rows) \<and>
            length calls = length (displayed rows) \<and>
            map AI_Narrative res = map narrative_of (responses svc s calls) \<and>
            skip_remaining (displayed rows) = [])"
proof -
  note r = run_result [OF assms]
  let ?D = "displayed rows"
  have len: "length (map AI_Narrative res) = length ?D"
    using r(1) by (metis length_map)
  have small: "calls = map build_prompt ?D \<and> length calls = length ?D \<and>
      map AI_Narrative res = map narrative_of (responses svc s calls) \<and> skip_remaining ?D = []"
    if "length ?D \<le> 10"
  proof -
    have skip: "skip_remaining ?D = []" using that by (simp add: skip_remaining_def)
    have calls: "calls = map build_prompt ?D" using r(2) that by simp
    show ?thesis using skip calls r(3) by simp
  qed
  show ?thesis using r(1) len small by blast
qed

text \<open>A run on 7 events.\<close>

theorem small_display_set_all_attempted_witness:
  "\<exists>res calls s'.
     get_crypto_data sample_env (Rows (sample_rows 7)) sample_service 0 = Inr (res, calls, s') \<and>
     length (displayed (sample_rows 7)) = 7 \<and> length res = 7 \<and> length calls = 7 \<and>
     map AI_Narrative res = map narrative_of (responses sample_service 0 calls)"
proof -
  obtain res calls s' where
    run: "get_crypto_data sample_env (Rows (sample_rows 7)) sample_service 0 = Inr (res, calls, s')"
    using run_returns [where svc = sample_service and s = "0::nat",
        OF sample_env_ok sample_rows_decodable]
    by blast
  have ne: "sample_rows 7 \<noteq> []" and len: "length (sample_rows 7) = 7"
    by (simp_all add: sample_rows_def)
  obtain df where "decode_rows (sample_rows 7) = Inr df"
    using decode_rows_ok [OF sample_rows_decodable] by blast
  then have lD: "length (displayed (sample_rows 7)) = 7"
    using length_displayed len by simp
  note t = small_display_set_all_attempted [OF run ne]
  have "length res = 7" using t lD by (metis length_map)
  then show ?thesis using run t lD by auto
qed

text \<open>
  Claim C5 says that an error of the service other than a rate-limit or quota error gives
  the narrative of a failed analysis. The handler of line 121 catches \<open>NotFound\<close> together
  with \<open>TooManyRequests\<close>: when the service raises \<open>NotFound\<close>, the event receives the
  narrative of an unavailable analysis.
\<close>

theorem not_found_counterexample:
  "get_crypto_data sample_env (Rows [sample_event ''0xA'' 0]) not_found_service () =
     Inr ([\<lparr>sender = ''0xA'', pool_address = ''0xpool'',
            data = decode_to_hex True False (- 1500) 2500000, tx_value = ''0'',
            block_timestamp = 0, amount0 = - 1500, amount1 = 2500000,
            time_diff = None, is_bot = False,
            AI_Narrative = ''analysis unavailable (api limit). [neutral]''\<rparr>],
          [build_prompt
             \<lparr>sender = ''0xA'', pool_address = ''0xpool'',
              data = decode_to_hex True False (- 1500) 2500000, tx_value = ''0'',
              block_timestamp = 0, amount0 = - 1500, amount1 = 2500000,
              time_diff = None, is_bot = False\<rparr>],
          ()) \<and>
   analysis_failed \<noteq> ''analysis unavailable (api limit). [neutral]''"
  by code_simp

text \<open>
  Claim C5, amended. For every annotated event: if the service raises \<open>TooManyRequests\<close>
  (the rate-limit or quota error) or \<open>NotFound\<close>, that event receives the fixed narrative
  of an unavailable analysis; if it raises any other exception, that event receives the
  fixed narrative of a failed analysis. In both cases the annotation goes on with the
  remaining events, and no failure of the service aborts the run: for every service the
  run returns a result, every one of the first ten rows of the display set is sent to the
  service whatever the earlier answers were, and the narrative of a row depends on the
  answer to its own call alone.
\<close>

theorem service_failure_fallback:
  assumes "configure e = Inr ()" and "rows \<noteq> []"
    and "\<forall>r \<in> set rows. \<exists>p. decode_swap_log (data r) = Inr p"
  shows "\<exists>res calls s'.
     get_crypto_data e (Rows rows) svc s = Inr (res, calls, s') \<and>
     length res = min 20 (length rows) \<and>
     map without_narrative res = displayed rows \<and>
     calls = map build_prompt (take 10 (displayed rows)) \<and>
     length calls = min 10 (length rows) \<and>
     (\<forall>i < length calls. AI_Narrative (res ! i) =
        (case responses svc s calls ! i of
           Text t \<Rightarrow> strip t
         | RaiseNotFound \<Rightarrow> ''analysis unavailable (api limit). [neutral]''
         | RaiseTooManyRequests \<Rightarrow> ''analysis unavailable (api limit). [neutral]''
         | RaiseOther \<Rightarrow> ''analysis failed. [neutral]'')) \<and>
     (\<forall>i. length calls \<le> i \<and> i < length res \<longrightarrow>
        AI_Narrative (res ! i) = ''analysis skipped to save api credits. [neutral]'')"
proof -
  obtain res calls s' where run: "get_crypto_data e (Rows rows) svc s = Inr (res, calls, s')"
    using run_returns [where svc = svc and s = s, OF assms(1,3)] by blast
  note r = run_result [OF run assms(2)]
  note n = run_narratives [OF run assms(2)]
  have called: "AI_Narrative (res ! i) =
      (case responses svc s calls ! i of
         Text t \<Rightarrow> strip t
       | RaiseNotFound \<Rightarrow> ''analysis unavailable (api limit). [neutral]''
       | RaiseTooManyRequests \<Rightarrow> ''analysis unavailable (api limit). [neutral]''
       | RaiseOther \<Rightarrow> ''analysis failed. [neutral]'')" if "i < length calls" for i
    using n(3) [OF that] narrative_of_cases [of "responses svc s calls ! i"] by simp
  have skipped: "AI_Narrative (res ! i) = ''analysis skipped to save api credits. [neutral]''"
    if "length calls \<le> i" "i < length res" for i
    using that by (rule n(4))
  show ?thesis
    using run n(1) r(1) r(2) n(2) called skipped by blast
qed

text \<open>
  A run on 7 events in which the third call raises \<open>TooManyRequests\<close>, the fourth
  \<open>NotFound\<close> and the fifth another exception: all 7 calls are made, and the rows after
  the failures receive the text of the service.
\<close>

theorem service_failure_fallback_witness:
  "\<exists>res calls s'.
     get_crypto_data sample_env (Rows (sample_rows 7)) sample_service 0 = Inr (res, calls, s') \<and>
     length res = 7 \<and> length calls = 7 \<and>
     AI_Narrative (res ! 1) = ''user bought token0. [bullish]'' \<and>
     AI_Narrative (res ! 2) = ''analysis unavailable (api limit). [neutral]'' \<and>
     AI_Narrative (res ! 3) = ''analysis unavailable (api limit). [neutral]'' \<and>
     AI_Narrative (res ! 4) = ''analysis failed. [neutral]'' \<and>
     AI_Narrative (res ! 5) = ''user bought token0. [bullish]'' \<and>
     AI_Narrative (res ! 6) = ''user bought token0. [bullish]''"
proof -
  have ne: "sample_rows 7 \<noteq> []" and len: "length (sample_rows 7) = 7"
    by (simp_all add: sample_rows_def)
  obtain res calls s' where
    run: "get_crypto_data sample_env (Rows (sample_rows 7)) sample_service 0 = Inr (res, calls, s')"
    and lres: "length res = min 20 (length (sample_rows 7))"
    and lc: "length calls = min 10 (length (sample_rows 7))"
    and nar: "\<forall>i < length calls. AI_Narrative (res ! i) =
        (case responses sample_service 0 calls ! i of
           Text t \<Rightarrow> strip t
         | RaiseNotFound \<Rightarrow> ''analysis unavailable (api limit). [neutral]''
         | RaiseTooManyRequests \<Rightarrow> ''analysis unavailable (api limit). [neutral]''
         | RaiseOther \<Rightarrow> ''analysis failed. [neutral]'')"
    using service_failure_fallback [where svc = sample_service and s = "0::nat",
        OF sample_env_ok ne sample_rows_decodable]
    by blast
  have lc7: "length calls = 7" and lr7: "length res = 7"
    using lc lres len by simp_all
  have st: "strip '' user bought token0. [bullish] '' = ''user bought token0. [bullish]''"
    by (simp add: strip_def py_str_isspace_def)
  have resp: "responses sample_service 0 calls ! 1 = Text '' user bought token0. [bullish] ''"
    "responses sample_service 0 calls ! 2 = RaiseTooManyRequests"
    "responses sample_service 0 calls ! 3 = RaiseNotFound"
    "responses sample_service 0 calls ! 4 = RaiseOther"
    "responses sample_service 0 calls ! 5 = Text '' user bought token0. [bullish] ''"
    "responses sample_service 0 calls ! 6 = Text '' user bought token0. [bullish] ''"
    using lc7 by (simp_all add: responses_sample_service sample_service_def)
  have n1: "AI_Narrative (res ! 1) = ''user bought token0. [bullish]''"
    using nar [rule_format, of 1] lc7 resp(1) st by simp
  have n2: "AI_Narrative (res ! 2) = ''analysis unavailable (api limit). [neutral]''"
    using nar [rule_format, of 2] lc7 resp(2) by simp
  have n3: "AI_Narrative (res ! 3) = ''analysis unavailable (api limit). [neutral]''"
    using nar [rule_format, of 3] lc7 resp(3) by simp
  have n4: "AI_Narrative (res ! 4) = ''analysis failed. [neutral]''"
    using nar [rule_format, of 4] lc7 resp(4) by simp
  have n5: "AI_Narrative (res ! 5) = ''user bought token0. [bullish]''"
    using nar [rule_format, of 5] lc7 resp(5) st by simp
  have n6: "AI_Narrative (res ! 6) = ''user bought token0. [bullish]''"
    using nar [rule_format, of 6] lc7 resp(6) st by simp
  show ?thesis using run lr7 lc7 n1 n2 n3 n4 n5 n6 by blast
qed


end
